theory Spec2Isabelle
  imports Main "HOL-Library.Word"
begin

section \<open>The chaincode event stream adapter of \<^verbatim>\<open>node/src/chaincodeevent.ts\<close>\<close>

subsection \<open>Wire messages and the decoded event\<close>

text \<open>
  The generated protocol-buffer getters are read through \<^verbatim>\<open>??\<close> and \<^verbatim>\<open>||\<close> in the
  source, so each getter may return \<^verbatim>\<open>undefined\<close>: a getter is an \<open>option\<close>, and
  \<open>None\<close> is the absent field. A JavaScript \<^verbatim>\<open>number\<close> holding a block number and the
  \<^verbatim>\<open>bigint\<close> made from it are both \<open>int\<close> (the getter of an integer field returns an
  integral number, on which \<^verbatim>\<open>BigInt\<close> does not raise); a \<^verbatim>\<open>Uint8Array\<close> is a list of
  bytes.
\<close>

type_synonym Uint8Array = "8 word list"

record ChaincodeEventProto =
  getChaincodeId :: "string option"
  getEventName :: "string option"
  getTxId :: "string option"
  getPayload_asU8 :: "Uint8Array option"

record ChaincodeEventsResponse =
  getBlockNumber :: "int option"
  getEventsList :: "ChaincodeEventProto list option"

record ChaincodeEvent =
  blockNumber :: int
  transactionId :: string
  chaincodeId :: string
  eventName :: string
  payload :: Uint8Array

text \<open>
  \<^verbatim>\<open>a ?? b\<close> is \<^verbatim>\<open>b\<close> exactly when \<^verbatim>\<open>a\<close> is \<^verbatim>\<open>null\<close> or \<^verbatim>\<open>undefined\<close>. \<^verbatim>\<open>a || b\<close> is
  \<^verbatim>\<open>b\<close> when \<^verbatim>\<open>a\<close> is falsy; the source applies it to an array and to a \<^verbatim>\<open>Uint8Array\<close>
  only, and an object is truthy even when it is empty, so there too the right operand is
  taken exactly when the left one is absent.
\<close>

definition nullish :: "'a option \<Rightarrow> 'a \<Rightarrow> 'a" where
  "nullish a b = (case a of None \<Rightarrow> b | Some v \<Rightarrow> v)"

definition object_or :: "'a option \<Rightarrow> 'a \<Rightarrow> 'a" where
  "object_or a b = (case a of None \<Rightarrow> b | Some v \<Rightarrow> v)"

text \<open>\<^verbatim>\<open>function newChaincodeEvent(blockNumber, event)\<close>, lines 64 to 72.\<close>

definition newChaincodeEvent :: "int \<Rightarrow> ChaincodeEventProto \<Rightarrow> ChaincodeEvent" where
  "newChaincodeEvent blockNumber' event =
     \<lparr> blockNumber = blockNumber',
       transactionId = nullish (getTxId event) '''',
       chaincodeId = nullish (getChaincodeId event) '''',
       eventName = nullish (getEventName event) '''',
       payload = object_or (getPayload_asU8 event) [] \<rparr>"

subsection \<open>The upstream source\<close>

text \<open>
  \<^verbatim>\<open>responses\<close> is a \<^verbatim>\<open>CloseableAsyncIterable<ChaincodeEventsResponse>\<close> supplied by the
  caller. It is modelled as a scripted source: \<open>pending\<close> is what the successive pulls
  of its iterator will deliver, a batch or a rejection with a transport error, and the
  iterator is done when the script is empty. How the source reacts to \<^verbatim>\<open>close()\<close> is its
  own business, so it is a parameter: \<open>onClose\<close> rewrites the script that is left
  (the identity for a source that ignores the call, \<open>\<lambda>_. []\<close> for one that ends,
  \<open>\<lambda>_. [Fail e]\<close> for one whose pending read is rejected with a cancellation error).
  The source keeps count of the calls of \<^verbatim>\<open>close()\<close>, of the calls of its iterator's
  \<^verbatim>\<open>return()\<close>, and a log of the batches it has handed over.
\<close>

type_synonym transport_error = string

datatype upstream_item = Batch ChaincodeEventsResponse | Fail transport_error

record CloseableAsyncIterable =
  pending :: "upstream_item list"
  onClose :: "upstream_item list \<Rightarrow> upstream_item list"
  closeCalls :: nat
  returnCalls :: nat
  delivered :: "ChaincodeEventsResponse list"

definition upstream_close :: "CloseableAsyncIterable \<Rightarrow> CloseableAsyncIterable" where
  "upstream_close u = u\<lparr> pending := onClose u (pending u), closeCalls := closeCalls u + 1 \<rparr>"

definition upstream_return :: "CloseableAsyncIterable \<Rightarrow> CloseableAsyncIterable" where
  "upstream_return u = u\<lparr> returnCalls := returnCalls u + 1 \<rparr>"

subsection \<open>The adapter\<close>

text \<open>
  \<^verbatim>\<open>newChaincodeEvents\<close> returns an object that closes over the flag \<^verbatim>\<open>closed\<close> and over
  \<^verbatim>\<open>responses\<close>. Its iterator is an asynchronous generator, which is suspended at one of
  three places between two requests: before its body has begun, at the \<^verbatim>\<open>yield\<close> of line
  53 (with the block number of the batch in hand and the records of that batch the inner
  loop has not visited yet), or after its body has finished, by running off the end, by
  the \<^verbatim>\<open>return\<close> of line 47 or by an exception. A finished generator answers every
  request with end-of-stream.

  The model follows one iteration of the adapter by one consumer: a request runs to its
  result before the next call is made, and \<^verbatim>\<open>close()\<close> and \<^verbatim>\<open>return()\<close> on the source
  return normally.
\<close>

datatype generator_state =
    SuspendedStart
  | SuspendedYield int "ChaincodeEventProto list"
  | Completed

record adapter =
  closed :: bool
  generator :: generator_state
  responses :: CloseableAsyncIterable

datatype iterator_result = Yielded ChaincodeEvent | Done | Thrown transport_error

definition newChaincodeEvents :: "CloseableAsyncIterable \<Rightarrow> adapter" where
  "newChaincodeEvents rs = \<lparr> closed = False, generator = SuspendedStart, responses = rs \<rparr>"

text \<open>
  The head of the \<^verbatim>\<open>for await\<close> loop, lines 45 to 55: pull the next batch; when the source
  is done the generator finishes; when the pull is rejected the exception leaves the
  generator; otherwise the flag is tested, and \<^verbatim>\<open>return\<close> inside \<^verbatim>\<open>for await\<close> closes the
  source's iterator through its \<^verbatim>\<open>return()\<close> method. A batch with no record makes the
  loop pull again within the same request.
\<close>

function forAwait :: "adapter \<Rightarrow> iterator_result \<times> adapter" where
  "forAwait st =
     (case pending (responses st) of
        [] \<Rightarrow> (Done, st\<lparr> generator := Completed \<rparr>)
      | Fail e # rest \<Rightarrow>
          (Thrown e, st\<lparr> generator := Completed,
                          responses := (responses st)\<lparr> pending := rest \<rparr> \<rparr>)
      | Batch response # rest \<Rightarrow>
          (let st1 = st\<lparr> responses := (responses st)
                          \<lparr> pending := rest,
                            delivered := delivered (responses st) @ [response] \<rparr> \<rparr>
           in if closed st1
              then (Done, st1\<lparr> generator := Completed,
                               responses := upstream_return (responses st1) \<rparr>)
              else (let blockNumber' = nullish (getBlockNumber response) 0;
                        events = object_or (getEventsList response) []
                    in case events of
                         [] \<Rightarrow> forAwait st1
                       | event # events' \<Rightarrow>
                           (Yielded (newChaincodeEvent blockNumber' event),
                            st1\<lparr> generator := SuspendedYield blockNumber' events' \<rparr>))))"
  by pat_completeness auto
termination
  by (relation "measure (\<lambda>st. length (pending (responses st)))") auto

declare forAwait.simps [simp del]

text \<open>One request for the next element: resume the generator where it is suspended.\<close>

definition nextElement :: "adapter \<Rightarrow> iterator_result \<times> adapter" where
  "nextElement st =
     (case generator st of
        SuspendedStart \<Rightarrow> forAwait st
      | SuspendedYield blockNumber' [] \<Rightarrow> forAwait st
      | SuspendedYield blockNumber' (event # events') \<Rightarrow>
          (Yielded (newChaincodeEvent blockNumber' event),
           st\<lparr> generator := SuspendedYield blockNumber' events' \<rparr>)
      | Completed \<Rightarrow> (Done, st))"

text \<open>\<^verbatim>\<open>close\<close>, lines 57 to 60.\<close>

definition close :: "adapter \<Rightarrow> adapter" where
  "close st = st\<lparr> closed := True, responses := upstream_close (responses st) \<rparr>"

text \<open>A consumer is the sequence of calls it makes on the adapter.\<close>

datatype call = Next | Close

fun run :: "call list \<Rightarrow> adapter \<Rightarrow> iterator_result list \<times> adapter" where
  "run [] st = ([], st)"
| "run (Next # cs) st =
     (case nextElement st of (r, st') \<Rightarrow> (case run cs st' of (rs, st'') \<Rightarrow> (r # rs, st'')))"
| "run (Close # cs) st = run cs (close st)"

fun emitted :: "iterator_result list \<Rightarrow> ChaincodeEvent list" where
  "emitted [] = []"
| "emitted (Yielded e # rs) = e # emitted rs"
| "emitted (r # rs) = emitted rs"

subsection \<open>What the adapter is expected to produce\<close>

text \<open>
  These definitions follow the specification, not the code, and use none of the
  definitions above. The event expected for a record carries the block number it is
  given and the fields of the record, an absent string being the empty string and an
  absent payload the empty byte sequence. The events expected for a batch are those of its
  records, in their order, under the block number of the batch, 0 when it is absent; a
  batch without event list has none. The output expected for a sequence of batches is the
  concatenation of the events of its batches, in batch order.
\<close>

definition expected_event :: "int \<Rightarrow> ChaincodeEventProto \<Rightarrow> ChaincodeEvent" where
  "expected_event n r =
     \<lparr> blockNumber = n,
       transactionId = (case getTxId r of None \<Rightarrow> [] | Some s \<Rightarrow> s),
       chaincodeId = (case getChaincodeId r of None \<Rightarrow> [] | Some s \<Rightarrow> s),
       eventName = (case getEventName r of None \<Rightarrow> [] | Some s \<Rightarrow> s),
       payload = (case getPayload_asU8 r of None \<Rightarrow> [] | Some p \<Rightarrow> p) \<rparr>"

definition expected_batch :: "ChaincodeEventsResponse \<Rightarrow> ChaincodeEvent list" where
  "expected_batch b =
     (case getEventsList b of
        None \<Rightarrow> []
      | Some records \<Rightarrow>
          map (expected_event (case getBlockNumber b of None \<Rightarrow> 0 | Some n \<Rightarrow> n)) records)"

definition expected_output :: "ChaincodeEventsResponse list \<Rightarrow> ChaincodeEvent list" where
  "expected_output bs = concat (map expected_batch bs)"

definition record_count :: "ChaincodeEventsResponse \<Rightarrow> nat" where
  "record_count b = (case getEventsList b of None \<Rightarrow> 0 | Some records \<Rightarrow> length records)"

text \<open>
  The same lists as the code computes them, with the decoding of lines 50, 51 and 53:
  the events the generator yields for one batch, and for a sequence of batches.
\<close>

definition decodeBatch :: "ChaincodeEventsResponse \<Rightarrow> ChaincodeEvent list" where
  "decodeBatch b =
     map (newChaincodeEvent (nullish (getBlockNumber b) 0)) (object_or (getEventsList b) [])"

definition flatten :: "ChaincodeEventsResponse list \<Rightarrow> ChaincodeEvent list" where
  "flatten bs = concat (map decodeBatch bs)"

text \<open>
  What a script still holds for a consumer that never closes: the events of its batches up
  to the first rejection, and the way it ends, by exhaustion or with that rejection.
\<close>

fun upcoming :: "upstream_item list \<Rightarrow> ChaincodeEvent list" where
  "upcoming [] = []"
| "upcoming (Fail e # rest) = []"
| "upcoming (Batch b # rest) = decodeBatch b @ upcoming rest"

fun ending :: "upstream_item list \<Rightarrow> iterator_result" where
  "ending [] = Done"
| "ending (Fail e # rest) = Thrown e"
| "ending (Batch b # rest) = ending rest"

text \<open>
  The events of the batch in flight that the generator has not yielded yet, and the
  result of the request that follows them once the adapter has been closed: the pull it
  makes is answered by the end of the script, by a rejection, or by a batch that the flag
  discards.
\<close>

definition inflight :: "adapter \<Rightarrow> ChaincodeEvent list" where
  "inflight st =
     (case generator st of
        SuspendedYield bn es \<Rightarrow> map (newChaincodeEvent bn) es
      | _ \<Rightarrow> [])"

definition closing :: "adapter \<Rightarrow> iterator_result" where
  "closing st =
     (case generator st of
        Completed \<Rightarrow> Done
      | _ \<Rightarrow> (case pending (responses st) of Fail e # rest \<Rightarrow> Thrown e | _ \<Rightarrow> Done))"

text \<open>
  The invariant that ties what has been emitted to the log of the source: while the
  generator is suspended, the events emitted so far followed by the rest of the batch in
  flight are the decoded batches handed over; once it has finished, the events emitted are
  a prefix of them (the batch discarded by the flag is in the log, and none of its events
  is emitted).
\<close>

definition consistent :: "adapter \<Rightarrow> ChaincodeEvent list \<Rightarrow> bool" where
  "consistent st es =
     (case generator st of
        SuspendedStart \<Rightarrow> es = flatten (delivered (responses st))
      | SuspendedYield bn evs \<Rightarrow>
          es @ map (newChaincodeEvent bn) evs = flatten (delivered (responses st))
      | Completed \<Rightarrow> take (length es) (flatten (delivered (responses st))) = es)"

subsection \<open>A concrete source\<close>

text \<open>
  The scenario of the specification: a batch of block 5 with one record, then a batch of
  block 6 with two records; and a further batch of block 7. Three reactions of a source to \<^verbatim>\<open>close()\<close>: it goes on as
  if nothing had happened, it ends, or its next read is rejected with a cancellation
  error.
\<close>

definition one_record :: ChaincodeEventsResponse where
  "one_record = \<lparr> getBlockNumber = Some 5, getEventsList = Some
     [\<lparr> getChaincodeId = Some ''cc1'', getEventName = Some ''ev1'', getTxId = Some ''t1'',
        getPayload_asU8 = Some [1, 2] \<rparr>] \<rparr>"

definition two_records :: ChaincodeEventsResponse where
  "two_records = \<lparr> getBlockNumber = Some 6, getEventsList = Some
     [\<lparr> getChaincodeId = Some ''cc1'', getEventName = Some ''ev2'', getTxId = Some ''t2'',
        getPayload_asU8 = Some [] \<rparr>,
      \<lparr> getChaincodeId = Some ''cc1'', getEventName = Some ''ev3'', getTxId = Some ''t3'',
        getPayload_asU8 = Some [9] \<rparr>] \<rparr>"

definition third_batch :: ChaincodeEventsResponse where
  "third_batch = \<lparr> getBlockNumber = Some 7, getEventsList = Some
     [\<lparr> getChaincodeId = Some ''cc1'', getEventName = Some ''ev4'', getTxId = Some ''t4'',
        getPayload_asU8 = Some [7] \<rparr>] \<rparr>"

definition ignoresClose :: "upstream_item list \<Rightarrow> upstream_item list" where
  "ignoresClose p = p"

definition endsOnClose :: "upstream_item list \<Rightarrow> upstream_item list" where
  "endsOnClose p = []"

definition cancelsOnClose :: "upstream_item list \<Rightarrow> upstream_item list" where
  "cancelsOnClose p = [Fail ''CANCELLED'']"

definition scenario_source :: CloseableAsyncIterable where
  "scenario_source =
     \<lparr> pending = [Batch one_record, Batch two_records], onClose = ignoresClose,
       closeCalls = 0, returnCalls = 0, delivered = [] \<rparr>"

definition scenario_run :: "iterator_result list \<times> adapter" where
  "scenario_run = run [Next, Next, Next] (newChaincodeEvents scenario_source)"

text \<open>
  The adapter after two requests, on the scenario followed by the batch of block 7: the
  first record of block 6 has been consumed, the second has not, and block 7 has not been
  pulled.
\<close>

definition mid_batch :: adapter where
  "mid_batch =
     snd (run [Next, Next]
            (newChaincodeEvents
               (scenario_source\<lparr> pending := [Batch one_record, Batch two_records,
                                              Batch third_batch] \<rparr>)))"

section \<open>Properties\<close>

subsection \<open>One turn of the loop\<close>

lemma forAwait_done:
  "pending (responses st) = [] \<Longrightarrow> forAwait st = (Done, st\<lparr> generator := Completed \<rparr>)"
  by (simp add: forAwait.simps[of st])

lemma forAwait_fail:
  "pending (responses st) = Fail e # rest \<Longrightarrow>
   forAwait st = (Thrown e, st\<lparr> generator := Completed,
                                  responses := (responses st)\<lparr> pending := rest \<rparr> \<rparr>)"
  by (simp add: forAwait.simps[of st])

lemma forAwait_closed:
  "pending (responses st) = Batch r # rest \<Longrightarrow> closed st \<Longrightarrow>
   forAwait st =
     (Done, st\<lparr> generator := Completed,
               responses := (responses st)\<lparr> pending := rest,
                 delivered := delivered (responses st) @ [r],
                 returnCalls := returnCalls (responses st) + 1 \<rparr> \<rparr>)"
  by (simp add: forAwait.simps[of st] upstream_return_def)

lemma forAwait_skip:
  "pending (responses st) = Batch r # rest \<Longrightarrow> \<not> closed st \<Longrightarrow>
   object_or (getEventsList r) [] = [] \<Longrightarrow>
   forAwait st =
     forAwait (st\<lparr> responses := (responses st)\<lparr> pending := rest,
                 delivered := delivered (responses st) @ [r] \<rparr> \<rparr>)"
  by (simp add: forAwait.simps[of st])

lemma forAwait_yield:
  "pending (responses st) = Batch r # rest \<Longrightarrow> \<not> closed st \<Longrightarrow>
   object_or (getEventsList r) [] = ev # evs \<Longrightarrow>
   forAwait st =
     (Yielded (newChaincodeEvent (nullish (getBlockNumber r) 0) ev),
      st\<lparr> responses := (responses st)\<lparr> pending := rest,
            delivered := delivered (responses st) @ [r] \<rparr>,
          generator := SuspendedYield (nullish (getBlockNumber r) 0) evs \<rparr>)"
  by (simp add: forAwait.simps[of st] Let_def)

lemma forAwait_induct [case_names exhausted rejected returned skipped yielded]:
  fixes P :: "adapter \<Rightarrow> bool"
  assumes "\<And>st. pending (responses st) = [] \<Longrightarrow> P st"
    and "\<And>st e rest. pending (responses st) = Fail e # rest \<Longrightarrow> P st"
    and "\<And>st r rest. pending (responses st) = Batch r # rest \<Longrightarrow> closed st \<Longrightarrow> P st"
    and "\<And>st r rest. pending (responses st) = Batch r # rest \<Longrightarrow> \<not> closed st \<Longrightarrow>
           object_or (getEventsList r) [] = [] \<Longrightarrow>
           P (st\<lparr> responses := (responses st)\<lparr> pending := rest,
                     delivered := delivered (responses st) @ [r] \<rparr> \<rparr>) \<Longrightarrow> P st"
    and "\<And>st r rest ev evs. pending (responses st) = Batch r # rest \<Longrightarrow> \<not> closed st \<Longrightarrow>
           object_or (getEventsList r) [] = ev # evs \<Longrightarrow> P st"
  shows "P st"
proof (induction st rule: forAwait.induct)
  case (1 st)
  show ?case
  proof (cases "pending (responses st)")
    case Nil
    then show ?thesis by (rule assms(1))
  next
    case (Cons it rest)
    show ?thesis
    proof (cases it)
      case (Fail e)
      with Cons show ?thesis by (auto intro: assms(2))
    next
      case (Batch r)
      with Cons have p: "pending (responses st) = Batch r # rest" by simp
      show ?thesis
      proof (cases "closed st")
        case True
        with p show ?thesis by (rule assms(3))
      next
        case False
        show ?thesis
        proof (cases "object_or (getEventsList r) []")
          case Nil
          have "P (st\<lparr> responses := (responses st)\<lparr> pending := rest,
                     delivered := delivered (responses st) @ [r] \<rparr> \<rparr>)"
            by (rule 1[OF Cons Batch refl _ refl refl Nil]) (use False in simp)
          with p False Nil show ?thesis by (rule assms(4))
        next
          case (Cons ev evs)
          with p False show ?thesis by (rule assms(5))
        qed
      qed
    qed
  qed
qed

lemma forAwait_open_nil:
  "\<not> closed st \<Longrightarrow> upcoming (pending (responses st)) = [] \<Longrightarrow>
   fst (forAwait st) = ending (pending (responses st)) \<and>
   generator (snd (forAwait st)) = Completed"
proof (induction st rule: forAwait_induct)
  case (exhausted st)
  then show ?case by (simp add: forAwait_done)
next
  case (rejected st e rest)
  then show ?case by (simp add: forAwait_fail)
next
  case (returned st r rest)
  then show ?case by simp
next
  case (skipped st r rest)
  then show ?case by (simp add: forAwait_skip[of st r rest] decodeBatch_def)
next
  case (yielded st r rest ev evs)
  then show ?case by (simp add: decodeBatch_def)
qed

lemma forAwait_open_cons:
  "\<not> closed st \<Longrightarrow> upcoming (pending (responses st)) = e # es \<Longrightarrow>
   fst (forAwait st) = Yielded e \<and>
   inflight (snd (forAwait st)) @ upcoming (pending (responses (snd (forAwait st)))) = es \<and>
   ending (pending (responses (snd (forAwait st)))) = ending (pending (responses st)) \<and>
   generator (snd (forAwait st)) \<noteq> Completed"
proof (induction st rule: forAwait_induct)
  case (exhausted st)
  then show ?case by simp
next
  case (rejected st e rest)
  then show ?case by simp
next
  case (returned st r rest)
  then show ?case by simp
next
  case (skipped st r rest)
  then show ?case by (simp add: forAwait_skip[of st r rest] decodeBatch_def)
next
  case (yielded st r rest ev evs)
  then show ?case by (simp add: forAwait_yield decodeBatch_def inflight_def)
qed

lemma forAwait_frame:
  "closed (snd (forAwait st)) = closed st \<and>
   closeCalls (responses (snd (forAwait st))) = closeCalls (responses st) \<and>
   onClose (responses (snd (forAwait st))) = onClose (responses st)"
proof (induction st rule: forAwait_induct)
  case (exhausted st)
  then show ?case by (simp add: forAwait_done)
next
  case (rejected st e rest)
  then show ?case by (simp add: forAwait_fail)
next
  case (returned st r rest)
  then show ?case by (simp add: forAwait_closed)
next
  case (skipped st r rest)
  then show ?case by (simp add: forAwait_skip[of st r rest])
next
  case (yielded st r rest ev evs)
  then show ?case by (simp add: forAwait_yield)
qed

lemma nextElement_frame:
  "closed (snd (nextElement st)) = closed st \<and>
   closeCalls (responses (snd (nextElement st))) = closeCalls (responses st) \<and>
   onClose (responses (snd (nextElement st))) = onClose (responses st)"
  by (simp add: nextElement_def forAwait_frame split: generator_state.split list.split)

lemma nextElement_completed:
  "generator st = Completed \<Longrightarrow> nextElement st = (Done, st)"
  by (simp add: nextElement_def)

lemma fst_run_Next:
  "fst (run (Next # cs) st) = fst (nextElement st) # fst (run cs (snd (nextElement st)))"
  by (simp split: prod.split)

lemma snd_run_Next:
  "snd (run (Next # cs) st) = snd (run cs (snd (nextElement st)))"
  by (simp split: prod.split)

lemma run_completed:
  "generator st = Completed \<Longrightarrow> run (replicate n Next) st = (replicate n Done, st)"
  by (induction n) (simp_all add: nextElement_completed)

lemma nextElement_open_nil:
  "\<not> closed st \<Longrightarrow> generator st \<noteq> Completed \<Longrightarrow>
   inflight st @ upcoming (pending (responses st)) = [] \<Longrightarrow>
   fst (nextElement st) = ending (pending (responses st)) \<and>
   generator (snd (nextElement st)) = Completed"
  using forAwait_open_nil[of st]
  by (auto simp: nextElement_def inflight_def split: generator_state.splits list.splits)

lemma nextElement_open_cons:
  "\<not> closed st \<Longrightarrow> generator st \<noteq> Completed \<Longrightarrow>
   inflight st @ upcoming (pending (responses st)) = e # es \<Longrightarrow>
   fst (nextElement st) = Yielded e \<and>
   inflight (snd (nextElement st)) @ upcoming (pending (responses (snd (nextElement st)))) = es \<and>
   ending (pending (responses (snd (nextElement st)))) = ending (pending (responses st)) \<and>
   generator (snd (nextElement st)) \<noteq> Completed"
  using forAwait_open_cons[of st e es]
  by (auto simp: nextElement_def inflight_def split: generator_state.splits list.splits)

lemma run_open:
  "\<not> closed st \<Longrightarrow> generator st \<noteq> Completed \<Longrightarrow>
   fst (run (replicate n Next) st) =
     take n (map Yielded (inflight st @ upcoming (pending (responses st))) @
             [ending (pending (responses st))]) @
     replicate (n - Suc (length (inflight st @ upcoming (pending (responses st))))) Done"
proof (induction n arbitrary: st)
  case 0
  show ?case by simp
next
  case (Suc n)
  obtain r st' where ne: "nextElement st = (r, st')" by (cases "nextElement st")
  have c': "\<not> closed st'" using nextElement_frame[of st] ne Suc.prems by simp
  show ?case
  proof (cases "inflight st @ upcoming (pending (responses st))")
    case Nil
    with nextElement_open_nil[OF Suc.prems] ne
    have "r = ending (pending (responses st))" "generator st' = Completed" by simp_all
    with Nil ne run_completed[of st' n] show ?thesis
      by (simp add: fst_run_Next del: run.simps)
  next
    case (Cons e es)
    with nextElement_open_cons[OF Suc.prems] ne
    have r: "r = Yielded e" and t: "inflight st' @ upcoming (pending (responses st')) = es"
      and en: "ending (pending (responses st')) = ending (pending (responses st))"
      and g: "generator st' \<noteq> Completed" by simp_all
    from Suc.IH[OF c' g] t en
    have "fst (run (replicate n Next) st') =
      take n (map Yielded es @ [ending (pending (responses st))]) @
      replicate (n - Suc (length es)) Done" by simp
    then show ?thesis using Cons ne r by (simp add: fst_run_Next del: run.simps)
  qed
qed


lemma forAwait_when_closed:
  "closed st \<Longrightarrow>
   fst (forAwait st) = (case pending (responses st) of Fail e # rest \<Rightarrow> Thrown e | _ \<Rightarrow> Done) \<and>
   generator (snd (forAwait st)) = Completed"
  by (auto simp: forAwait_done forAwait_fail forAwait_closed
      split: list.split upstream_item.split)

lemma run_closed:
  "closed st \<Longrightarrow>
   fst (run (replicate n Next) st) =
     take n (map Yielded (inflight st) @ [closing st]) @
     replicate (n - Suc (length (inflight st))) Done"
proof (induction n arbitrary: st)
  case 0
  show ?case by simp
next
  case (Suc n)
  let ?st' = "snd (nextElement st)"
  have c': "closed ?st'" using nextElement_frame[of st] Suc.prems by simp
  have unfold: "fst (run (replicate (Suc n) Next) st) =
      fst (nextElement st) # fst (run (replicate n Next) ?st')"
    by (simp add: fst_run_Next del: run.simps)
  consider (mid) bn ev evs where "generator st = SuspendedYield bn (ev # evs)"
    | (pull) "generator st = SuspendedStart \<or> (\<exists>bn. generator st = SuspendedYield bn [])"
    | (fin) "generator st = Completed"
    by (cases "generator st"; cases "case generator st of SuspendedYield bn es \<Rightarrow> es | _ \<Rightarrow> []")
       auto
  then show ?case
  proof cases
    case mid
    then have ne: "nextElement st =
        (Yielded (newChaincodeEvent bn ev), st\<lparr> generator := SuspendedYield bn evs \<rparr>)"
      by (simp add: nextElement_def)
    have "closing ?st' = closing st" using mid ne by (simp add: closing_def)
    moreover have "inflight ?st' = map (newChaincodeEvent bn) evs"
      using ne by (simp add: inflight_def)
    moreover have "inflight st = newChaincodeEvent bn ev # map (newChaincodeEvent bn) evs"
      using mid by (simp add: inflight_def)
    ultimately show ?thesis using Suc.IH[OF c'] ne unfold by simp
  next
    case pull
    then have ne: "nextElement st = forAwait st" by (auto simp: nextElement_def)
    have i: "inflight st = []" using pull by (auto simp: inflight_def)
    have r: "fst (nextElement st) = closing st"
      using pull forAwait_when_closed[OF Suc.prems] ne by (auto simp: closing_def)
    have "generator ?st' = Completed" using forAwait_when_closed[OF Suc.prems] ne by simp
    then have "fst (run (replicate n Next) ?st') = replicate n Done"
      by (simp add: run_completed)
    then show ?thesis using unfold r i by simp
  next
    case fin
    have "fst (run (replicate (Suc n) Next) st) = replicate (Suc n) Done"
      by (simp only: run_completed[OF fin] fst_conv)
    then show ?thesis using fin by (simp add: inflight_def closing_def del: run.simps)
  qed
qed

lemma run_closeCalls:
  "closeCalls (responses (snd (run cs st))) = closeCalls (responses st) + count_list cs Close"
proof (induction cs arbitrary: st)
  case Nil
  show ?case by simp
next
  case (Cons c cs)
  show ?case
  proof (cases c)
    case Next
    then show ?thesis using Cons[of "snd (nextElement st)"] nextElement_frame[of st]
      by (simp add: snd_run_Next del: run.simps)
  next
    case Close
    then show ?thesis using Cons[of "close st"] by (simp add: close_def upstream_close_def)
  qed
qed

lemma run_stays_closed: "closed st \<Longrightarrow> closed (snd (run cs st))"
proof (induction cs arbitrary: st)
  case Nil
  then show ?case by simp
next
  case (Cons c cs)
  show ?case
  proof (cases c)
    case Next
    then show ?thesis using Cons.IH[of "snd (nextElement st)"] Cons.prems nextElement_frame[of st]
      by (simp add: snd_run_Next del: run.simps)
  next
    case Close
    then show ?thesis using Cons.IH[of "close st"] by (simp add: close_def)
  qed
qed

subsection \<open>Scripts of batches\<close>

lemma upcoming_batches: "upcoming (map Batch bs) = flatten bs"
  by (induction bs) (simp_all add: flatten_def)

lemma ending_batches: "ending (map Batch bs) = Done"
  by (induction bs) simp_all

lemma upcoming_batches_fail: "upcoming (map Batch bs @ Fail e # rest) = flatten bs"
  by (induction bs) (simp_all add: flatten_def)

lemma ending_batches_fail: "ending (map Batch bs @ Fail e # rest) = Thrown e"
  by (induction bs) simp_all

lemma take_snoc_replicate:
  "take n (xs @ [d]) @ replicate (n - Suc (length xs)) d = take n xs @ replicate (n - length xs) d"
proof (cases "n \<le> length xs")
  case True
  then show ?thesis by simp
next
  case False
  then obtain k where "n = Suc (length xs + k)" using less_iff_Suc_add by (auto simp: not_le)
  then show ?thesis by (simp add: replicate_append_same)
qed

lemma length_flatten:
  "length (flatten bs) = sum_list (map (\<lambda>b. length (object_or (getEventsList b) [])) bs)"
  by (induction bs) (simp_all add: flatten_def decodeBatch_def)

lemma forAwait_open_returnCalls:
  "\<not> closed st \<Longrightarrow> returnCalls (responses (snd (forAwait st))) = returnCalls (responses st)"
proof (induction st rule: forAwait_induct)
  case (exhausted st)
  then show ?case by (simp add: forAwait_done)
next
  case (rejected st e rest)
  then show ?case by (simp add: forAwait_fail)
next
  case (returned st r rest)
  then show ?case by simp
next
  case (skipped st r rest)
  then show ?case by (simp add: forAwait_skip[of st r rest])
next
  case (yielded st r rest ev evs)
  then show ?case by (simp add: forAwait_yield)
qed

lemma nextElement_open_returnCalls:
  "\<not> closed st \<Longrightarrow>
   returnCalls (responses (snd (nextElement st))) = returnCalls (responses st)"
  by (simp add: nextElement_def forAwait_open_returnCalls
      split: generator_state.split list.split)

lemma run_open_returnCalls:
  "\<not> closed st \<Longrightarrow>
   returnCalls (responses (snd (run (replicate n Next) st))) = returnCalls (responses st)"
proof (induction n arbitrary: st)
  case 0
  show ?case by simp
next
  case (Suc n)
  have "\<not> closed (snd (nextElement st))" using Suc.prems nextElement_frame[of st] by simp
  from Suc.IH[OF this] show ?case using Suc.prems
    by (simp add: snd_run_Next nextElement_open_returnCalls del: run.simps)
qed

subsection \<open>Events emitted\<close>

lemma emitted_append: "emitted (rs @ rs') = emitted rs @ emitted rs'"
  by (induction rs rule: emitted.induct) simp_all

lemma emitted_Cons: "emitted (r # rs) = emitted [r] @ emitted rs"
  by (cases r) simp_all

lemma emitted_Yielded: "emitted (map Yielded es) = es"
  by (induction es) simp_all

lemma emitted_Done: "emitted (replicate n Done) = []"
  by (induction n) simp_all

lemma emitted_closing: "emitted [closing st] = []"
  by (simp add: closing_def split: generator_state.split list.split upstream_item.split)

lemma emitted_run_closed:
  "closed st \<Longrightarrow> emitted (fst (run (replicate n Next) st)) = take n (inflight st)"
proof -
  assume "closed st"
  have "emitted (take (n - length (inflight st)) [closing st]) = []"
    using emitted_closing[of st] by (cases "n - length (inflight st)") simp_all
  then show ?thesis
    using run_closed[OF \<open>closed st\<close>, of n]
    by (simp add: emitted_append emitted_Done emitted_Yielded take_map
        del: run.simps)
qed

subsection \<open>Emitted events and the log of the source\<close>

lemma flatten_append: "flatten (bs @ cs) = flatten bs @ flatten cs"
  by (simp add: flatten_def)

lemma forAwait_log_yield:
  "fst (forAwait st) = Yielded e \<Longrightarrow>
   flatten (delivered (responses (snd (forAwait st)))) =
     flatten (delivered (responses st)) @ e # inflight (snd (forAwait st)) \<and>
   generator (snd (forAwait st)) \<noteq> Completed"
proof (induction st rule: forAwait_induct)
  case (exhausted st)
  then show ?case by (simp add: forAwait_done)
next
  case (rejected st e rest)
  then show ?case by (simp add: forAwait_fail)
next
  case (returned st r rest)
  then show ?case by (simp add: forAwait_closed)
next
  case (skipped st r rest)
  then show ?case
    by (simp add: forAwait_skip[of st r rest] flatten_append) (simp add: flatten_def decodeBatch_def)
next
  case (yielded st r rest ev evs)
  then show ?case
    by (simp add: forAwait_yield flatten_append inflight_def)
       (simp add: flatten_def decodeBatch_def)
qed

lemma forAwait_log_stop:
  "emitted [fst (forAwait st)] = [] \<Longrightarrow>
   generator (snd (forAwait st)) = Completed \<and>
   (\<exists>zs. flatten (delivered (responses (snd (forAwait st)))) =
      flatten (delivered (responses st)) @ zs)"
proof (induction st rule: forAwait_induct)
  case (exhausted st)
  then show ?case by (simp add: forAwait_done)
next
  case (rejected st e rest)
  then show ?case by (simp add: forAwait_fail)
next
  case (returned st r rest)
  then show ?case by (simp add: forAwait_closed flatten_append)
next
  case (skipped st r rest)
  then show ?case
    by (simp add: forAwait_skip[of st r rest] flatten_append) (simp add: flatten_def decodeBatch_def)
next
  case (yielded st r rest ev evs)
  then show ?case by (simp add: forAwait_yield)
qed

lemma consistent_prefix:
  "consistent st es \<Longrightarrow> take (length es) (flatten (delivered (responses st))) = es"
  by (cases "generator st") (auto simp: consistent_def append_eq_conv_conj)

lemma consistent_nextElement:
  assumes "consistent st es"
  shows "consistent (snd (nextElement st)) (es @ emitted [fst (nextElement st)])"
proof -
  consider (mid) bn ev evs where "generator st = SuspendedYield bn (ev # evs)"
    | (pull) "generator st = SuspendedStart \<or> (\<exists>bn. generator st = SuspendedYield bn [])"
    | (fin) "generator st = Completed"
    by (cases "generator st"; cases "case generator st of SuspendedYield bn es \<Rightarrow> es | _ \<Rightarrow> []")
       auto
  then show ?thesis
  proof cases
    case mid
    then have ne: "nextElement st =
        (Yielded (newChaincodeEvent bn ev), st\<lparr> generator := SuspendedYield bn evs \<rparr>)"
      by (simp add: nextElement_def)
    show ?thesis using assms mid by (simp add: ne consistent_def)
  next
    case pull
    then have ne: "nextElement st = forAwait st" by (auto simp: nextElement_def)
    have z: "es = flatten (delivered (responses st))"
      using pull assms by (auto simp: consistent_def)
    show ?thesis
    proof (cases "fst (forAwait st)")
      case (Yielded e)
      from forAwait_log_yield[OF this] Yielded z show ?thesis
        by (cases "generator (snd (forAwait st))")
           (simp_all add: ne consistent_def inflight_def)
    next
      case Done
      then have "emitted [fst (forAwait st)] = []" by simp
      from forAwait_log_stop[OF this] Done z show ?thesis
        by (auto simp: ne consistent_def)
    next
      case (Thrown x)
      then have "emitted [fst (forAwait st)] = []" by simp
      from forAwait_log_stop[OF this] Thrown z show ?thesis
        by (auto simp: ne consistent_def)
    qed
  next
    case fin
    then show ?thesis using assms by (simp add: nextElement_completed)
  qed
qed

lemma consistent_close: "consistent (close st) es = consistent st es"
  by (simp add: consistent_def close_def upstream_close_def split: generator_state.split)

lemma consistent_run:
  "consistent st es \<Longrightarrow> consistent (snd (run cs st)) (es @ emitted (fst (run cs st)))"
proof (induction cs arbitrary: st es)
  case Nil
  then show ?case by simp
next
  case (Cons c cs)
  show ?case
  proof (cases c)
    case Next
    from Cons.IH[OF consistent_nextElement[OF Cons.prems]] Next show ?thesis
      by (simp add: fst_run_Next snd_run_Next
            emitted_Cons[of "fst (nextElement st)" "fst (run cs (snd (nextElement st)))"]
          del: run.simps)
  next
    case Close
    from Cons.IH[of "close st" es] Cons.prems Close show ?thesis
      by (simp add: consistent_close)
  qed
qed

lemma emitted_prefix_of_delivered:
  "emitted (fst (run cs (newChaincodeEvents (rs\<lparr> delivered := [] \<rparr>)))) =
     take (length (emitted (fst (run cs (newChaincodeEvents (rs\<lparr> delivered := [] \<rparr>))))))
       (flatten (delivered (responses (snd (run cs (newChaincodeEvents (rs\<lparr> delivered := [] \<rparr>)))))))"
proof -
  let ?st = "newChaincodeEvents (rs\<lparr> delivered := [] \<rparr>)"
  have "consistent ?st []" by (simp add: consistent_def newChaincodeEvents_def flatten_def)
  from consistent_prefix[OF consistent_run[OF this, of cs]] show ?thesis by simp
qed

subsection \<open>Order within the flattened batches\<close>

lemma blockNumber_decodeBatch:
  "e \<in> set (decodeBatch b) \<Longrightarrow> blockNumber e = nullish (getBlockNumber b) 0"
  by (auto simp: decodeBatch_def newChaincodeEvent_def)

lemma blockNumber_flatten:
  "e \<in> set (flatten bs) \<Longrightarrow> \<exists>b\<in>set bs. blockNumber e = nullish (getBlockNumber b) 0"
  by (auto simp: flatten_def dest: blockNumber_decodeBatch)

lemma flatten_Cons: "flatten (b # bs) = decodeBatch b @ flatten bs"
  by (simp add: flatten_def)

lemma length_decodeBatch: "length (decodeBatch b) = length (object_or (getEventsList b) [])"
  by (simp add: decodeBatch_def)

lemma nth_decodeBatch:
  "p < length (object_or (getEventsList b) []) \<Longrightarrow>
   decodeBatch b ! p =
     newChaincodeEvent (nullish (getBlockNumber b) 0) (object_or (getEventsList b) [] ! p)"
  by (simp add: decodeBatch_def)

lemma flatten_ordered:
  "sorted_wrt (<) (map (\<lambda>b. nullish (getBlockNumber b) 0) bs) \<Longrightarrow>
   i < j \<Longrightarrow> j < length (flatten bs) \<Longrightarrow>
   blockNumber (flatten bs ! i) < blockNumber (flatten bs ! j) \<or>
   (blockNumber (flatten bs ! i) = blockNumber (flatten bs ! j) \<and>
    (\<exists>b\<in>set bs. \<exists>p q. p < q \<and> q < length (object_or (getEventsList b) []) \<and>
       flatten bs ! i =
         newChaincodeEvent (nullish (getBlockNumber b) 0) (object_or (getEventsList b) [] ! p) \<and>
       flatten bs ! j =
         newChaincodeEvent (nullish (getBlockNumber b) 0) (object_or (getEventsList b) [] ! q)))"
proof (induction bs arbitrary: i j)
  case Nil
  then show ?case by (simp add: flatten_def)
next
  case (Cons b bs)
  let ?n = "length (object_or (getEventsList b) [])"
  have len: "length (decodeBatch b) = ?n" by (rule length_decodeBatch)
  have srt: "sorted_wrt (<) (map (\<lambda>b. nullish (getBlockNumber b) 0) bs)"
    and low: "\<And>c. c \<in> set bs \<Longrightarrow> nullish (getBlockNumber b) 0 < nullish (getBlockNumber c) 0"
    using Cons.prems(1) by auto
  consider (same) "j < ?n" | (across) "i < ?n" "?n \<le> j" | (later) "?n \<le> i"
    by linarith
  then show ?case
  proof cases
    case same
    then have "i < ?n" using Cons.prems(2) by simp
    then have "flatten (b # bs) ! i =
        newChaincodeEvent (nullish (getBlockNumber b) 0) (object_or (getEventsList b) [] ! i)"
      by (simp add: flatten_Cons nth_append len nth_decodeBatch)
    moreover have "flatten (b # bs) ! j =
        newChaincodeEvent (nullish (getBlockNumber b) 0) (object_or (getEventsList b) [] ! j)"
      using same by (simp add: flatten_Cons nth_append len nth_decodeBatch)
    ultimately show ?thesis using same Cons.prems(2)
      by (auto simp: newChaincodeEvent_def)
  next
    case across
    have "flatten (b # bs) ! i = decodeBatch b ! i"
      using across(1) by (simp add: flatten_Cons nth_append len)
    then have bi: "blockNumber (flatten (b # bs) ! i) = nullish (getBlockNumber b) 0"
      using across(1) by (simp add: nth_decodeBatch newChaincodeEvent_def)
    have "flatten (b # bs) ! j = flatten bs ! (j - ?n)"
      using across(2) by (simp add: flatten_Cons nth_append len)
    moreover have "j - ?n < length (flatten bs)"
      using across(2) Cons.prems(3) by (simp add: flatten_Cons len)
    ultimately have "flatten (b # bs) ! j \<in> set (flatten bs)" by simp
    from blockNumber_flatten[OF this] low bi show ?thesis by auto
  next
    case later
    then have li: "flatten (b # bs) ! i = flatten bs ! (i - ?n)"
      by (simp add: flatten_Cons nth_append len)
    have lj: "flatten (b # bs) ! j = flatten bs ! (j - ?n)"
      using later Cons.prems(2) by (simp add: flatten_Cons nth_append len)
    have "i - ?n < j - ?n" using later Cons.prems(2) by simp
    moreover have "j - ?n < length (flatten bs)"
      using later Cons.prems(2,3) by (simp add: flatten_Cons len)
    ultimately have ih:
      "blockNumber (flatten bs ! (i - ?n)) < blockNumber (flatten bs ! (j - ?n)) \<or>
       (blockNumber (flatten bs ! (i - ?n)) = blockNumber (flatten bs ! (j - ?n)) \<and>
        (\<exists>c\<in>set bs. \<exists>p q. p < q \<and> q < length (object_or (getEventsList c) []) \<and>
           flatten bs ! (i - ?n) =
             newChaincodeEvent (nullish (getBlockNumber c) 0) (object_or (getEventsList c) [] ! p) \<and>
           flatten bs ! (j - ?n) =
             newChaincodeEvent (nullish (getBlockNumber c) 0) (object_or (getEventsList c) [] ! q)))"
      by (rule Cons.IH[OF srt])
    show ?thesis
    proof (rule disjE[OF ih])
      assume "blockNumber (flatten bs ! (i - ?n)) < blockNumber (flatten bs ! (j - ?n))"
      then show ?thesis unfolding li lj by (rule disjI1)
    next
      assume "blockNumber (flatten bs ! (i - ?n)) = blockNumber (flatten bs ! (j - ?n)) \<and>
        (\<exists>c\<in>set bs. \<exists>p q. p < q \<and> q < length (object_or (getEventsList c) []) \<and>
           flatten bs ! (i - ?n) =
             newChaincodeEvent (nullish (getBlockNumber c) 0) (object_or (getEventsList c) [] ! p) \<and>
           flatten bs ! (j - ?n) =
             newChaincodeEvent (nullish (getBlockNumber c) 0) (object_or (getEventsList c) [] ! q))"
      then obtain c p q where eq: "blockNumber (flatten bs ! (i - ?n)) = blockNumber (flatten bs ! (j - ?n))"
        and c: "c \<in> set (b # bs)" and pq: "p < q" "q < length (object_or (getEventsList c) [])"
        and e1: "flatten bs ! (i - ?n) =
             newChaincodeEvent (nullish (getBlockNumber c) 0) (object_or (getEventsList c) [] ! p)"
        and e2: "flatten bs ! (j - ?n) =
             newChaincodeEvent (nullish (getBlockNumber c) 0) (object_or (getEventsList c) [] ! q)"
        by auto
      show ?thesis unfolding li lj
        by (rule disjI2, rule conjI[OF eq], rule bexI[OF _ c], intro exI conjI)
           (rule pq e1 e2)+
    qed
  qed
qed

subsection \<open>The scenario, evaluated\<close>

lemmas scenario_defs =
  newChaincodeEvents_def nextElement_def forAwait.simps close_def upstream_close_def
  upstream_return_def newChaincodeEvent_def nullish_def object_or_def
  one_record_def two_records_def scenario_source_def
  ignoresClose_def endsOnClose_def cancelsOnClose_def

lemma scenario_run_value:
  "scenario_run =
     ([Yielded \<lparr> blockNumber = 5, transactionId = ''t1'', chaincodeId = ''cc1'',
                 eventName = ''ev1'', payload = [1, 2] \<rparr>,
       Yielded \<lparr> blockNumber = 6, transactionId = ''t2'', chaincodeId = ''cc1'',
                 eventName = ''ev2'', payload = [] \<rparr>,
       Yielded \<lparr> blockNumber = 6, transactionId = ''t3'', chaincodeId = ''cc1'',
                 eventName = ''ev3'', payload = [9] \<rparr>],
      \<lparr> closed = False, generator = SuspendedYield 6 [],
        responses = \<lparr> pending = [], onClose = ignoresClose, closeCalls = 0, returnCalls = 0,
                      delivered = [one_record, two_records] \<rparr> \<rparr>)"
  by (simp add: scenario_run_def scenario_defs)

lemma mid_batch_value:
  "mid_batch =
     \<lparr> closed = False,
       generator = SuspendedYield 6
         [\<lparr> getChaincodeId = Some ''cc1'', getEventName = Some ''ev3'', getTxId = Some ''t3'',
            getPayload_asU8 = Some [9] \<rparr>],
       responses = \<lparr> pending = [Batch third_batch], onClose = ignoresClose, closeCalls = 0,
                     returnCalls = 0, delivered = [one_record, two_records] \<rparr> \<rparr>"
  by (simp add: mid_batch_def scenario_defs)

subsection \<open>The code decodes what the specification expects\<close>

lemma newChaincodeEvent_expected: "newChaincodeEvent n r = expected_event n r"
  by (simp add: newChaincodeEvent_def expected_event_def nullish_def object_or_def)

lemma decodeBatch_expected: "decodeBatch b = expected_batch b"
  by (cases "getEventsList b"; cases "getBlockNumber b")
     (simp_all add: decodeBatch_def expected_batch_def newChaincodeEvent_expected
        nullish_def object_or_def)

lemma flatten_expected: "flatten bs = expected_output bs"
proof -
  have "decodeBatch = expected_batch" by (rule ext) (rule decodeBatch_expected)
  then show ?thesis by (simp add: flatten_def expected_output_def)
qed

lemma length_expected_output:
  "length (expected_output bs) = sum_list (map record_count bs)"
  by (induction bs)
     (simp_all add: expected_output_def expected_batch_def record_count_def split: option.split)

section \<open>The claims\<close>

text \<open>
  C1. For every finite sequence of batches, when \<^verbatim>\<open>close()\<close> is never called and the source
  raises no error, the results of the successive requests are the events expected by the
  specification: the decoded records of the batches, concatenated in batch order and in
  the order of each batch, followed by end-of-stream for ever. Each event carries the
  block number of its batch, and the number of events is the sum of the record counts of
  the batches. On the scenario of the specification the output is the three events it
  lists, in that order.
\<close>

theorem C1_flattened_output:
  "fst (run (replicate n Next) (newChaincodeEvents (rs\<lparr> pending := map Batch bs \<rparr>))) =
     take n (map Yielded (expected_output bs)) @
     replicate (n - length (expected_output bs)) Done
   \<and> map blockNumber (expected_batch b) =
       replicate (record_count b) (case getBlockNumber b of None \<Rightarrow> 0 | Some k \<Rightarrow> k)
   \<and> length (expected_output bs) = sum_list (map record_count bs)
   \<and> fst (run (replicate 5 Next) (newChaincodeEvents scenario_source)) =
       [Yielded \<lparr> blockNumber = 5, transactionId = ''t1'', chaincodeId = ''cc1'',
                  eventName = ''ev1'', payload = [1, 2] \<rparr>,
        Yielded \<lparr> blockNumber = 6, transactionId = ''t2'', chaincodeId = ''cc1'',
                  eventName = ''ev2'', payload = [] \<rparr>,
        Yielded \<lparr> blockNumber = 6, transactionId = ''t3'', chaincodeId = ''cc1'',
                  eventName = ''ev3'', payload = [9] \<rparr>,
        Done, Done]"
proof -
  have a: "fst (run (replicate n Next) (newChaincodeEvents (rs\<lparr> pending := map Batch bs \<rparr>))) =
      take n (map Yielded (expected_output bs)) @
      replicate (n - length (expected_output bs)) Done" for n rs bs
  proof -
    let ?st = "newChaincodeEvents (rs\<lparr> pending := map Batch bs \<rparr>)"
    have o: "\<not> closed ?st" and g: "generator ?st \<noteq> Completed"
      and i: "inflight ?st = []" and p: "pending (responses ?st) = map Batch bs"
      by (simp_all add: newChaincodeEvents_def inflight_def)
    have "fst (run (replicate n Next) ?st) =
        take n (map Yielded (flatten bs) @ [Done]) @
        replicate (n - Suc (length (flatten bs))) Done"
      using run_open[OF o g, of n] by (simp add: i p upcoming_batches ending_batches)
    then show ?thesis
      using take_snoc_replicate[of n "map Yielded (flatten bs)" Done]
      by (simp add: flatten_expected)
  qed
  have b: "map blockNumber (expected_batch b) =
       replicate (record_count b) (case getBlockNumber b of None \<Rightarrow> 0 | Some k \<Rightarrow> k)"
    by (cases "getEventsList b")
       (simp_all add: expected_batch_def record_count_def expected_event_def comp_def
          map_replicate_const)
  have s: "scenario_source\<lparr> pending := map Batch [one_record, two_records] \<rparr> = scenario_source"
    by (simp add: scenario_source_def)
  have e: "expected_output [one_record, two_records] =
       [\<lparr> blockNumber = 5, transactionId = ''t1'', chaincodeId = ''cc1'',
          eventName = ''ev1'', payload = [1, 2] \<rparr>,
        \<lparr> blockNumber = 6, transactionId = ''t2'', chaincodeId = ''cc1'',
          eventName = ''ev2'', payload = [] \<rparr>,
        \<lparr> blockNumber = 6, transactionId = ''t3'', chaincodeId = ''cc1'',
          eventName = ''ev3'', payload = [9] \<rparr>]"
    by (simp add: expected_output_def expected_batch_def expected_event_def
        one_record_def two_records_def)
  have c: "fst (run (replicate 5 Next) (newChaincodeEvents scenario_source)) =
       [Yielded \<lparr> blockNumber = 5, transactionId = ''t1'', chaincodeId = ''cc1'',
                  eventName = ''ev1'', payload = [1, 2] \<rparr>,
        Yielded \<lparr> blockNumber = 6, transactionId = ''t2'', chaincodeId = ''cc1'',
                  eventName = ''ev2'', payload = [] \<rparr>,
        Yielded \<lparr> blockNumber = 6, transactionId = ''t3'', chaincodeId = ''cc1'',
                  eventName = ''ev3'', payload = [9] \<rparr>,
        Done, Done]"
    using a[where n = 5 and rs = scenario_source and bs = "[one_record, two_records]"]
    by (simp only: s e) (simp add: numeral_2_eq_2)
  show ?thesis by (intro conjI a b c length_expected_output)
qed

theorem C1_flattened_output_witness:
  "fst (run (replicate 4 Next)
          (newChaincodeEvents
             (scenario_source\<lparr> pending := map Batch [one_record, two_records, third_batch] \<rparr>))) =
     [Yielded \<lparr> blockNumber = 5, transactionId = ''t1'', chaincodeId = ''cc1'',
                eventName = ''ev1'', payload = [1, 2] \<rparr>,
      Yielded \<lparr> blockNumber = 6, transactionId = ''t2'', chaincodeId = ''cc1'',
                eventName = ''ev2'', payload = [] \<rparr>,
      Yielded \<lparr> blockNumber = 6, transactionId = ''t3'', chaincodeId = ''cc1'',
                eventName = ''ev3'', payload = [9] \<rparr>,
      Yielded \<lparr> blockNumber = 7, transactionId = ''t4'', chaincodeId = ''cc1'',
                eventName = ''ev4'', payload = [7] \<rparr>]"
  using C1_flattened_output[where n = 4 and rs = scenario_source
      and bs = "[one_record, two_records, third_batch]"]
  by (simp add: expected_output_def expected_batch_def expected_event_def
      one_record_def two_records_def third_batch_def del: run.simps replicate.simps)

text \<open>
  C2. Over any sequence of requests and calls of \<^verbatim>\<open>close()\<close>, if the batches the source has
  handed over have strictly increasing block numbers, then of two events emitted one
  after the other, either the first has the smaller block number, or both have the same
  block number and are the decoded records of one batch, the first at an earlier place of
  its record list than the second (so no later).
\<close>

theorem C2_emission_order:
  assumes "run cs (newChaincodeEvents (rs\<lparr> delivered := [] \<rparr>)) = (results, st')"
    and "sorted_wrt (<) (map (\<lambda>b. nullish (getBlockNumber b) 0) (delivered (responses st')))"
    and "i < j" and "j < length (emitted results)"
  shows "blockNumber (emitted results ! i) < blockNumber (emitted results ! j) \<or>
   (blockNumber (emitted results ! i) = blockNumber (emitted results ! j) \<and>
    (\<exists>b\<in>set (delivered (responses st')).
       \<exists>p q. p < q \<and> q < length (object_or (getEventsList b) []) \<and>
         emitted results ! i =
           newChaincodeEvent (nullish (getBlockNumber b) 0) (object_or (getEventsList b) [] ! p) \<and>
         emitted results ! j =
           newChaincodeEvent (nullish (getBlockNumber b) 0) (object_or (getEventsList b) [] ! q)))"
proof -
  let ?all = "flatten (delivered (responses st'))"
  have pre: "emitted results = take (length (emitted results)) ?all"
    using emitted_prefix_of_delivered[of cs rs] assms(1) by simp
  have le: "length (emitted results) \<le> length ?all"
    using arg_cong[OF pre, of length] by simp
  have i: "emitted results ! i = ?all ! i" using pre assms(3,4) by (metis less_trans nth_take)
  have j: "emitted results ! j = ?all ! j" using pre assms(4) by (metis nth_take)
  have "j < length ?all" using le assms(4) by simp
  from flatten_ordered[OF assms(2,3) this] show ?thesis unfolding i j .
qed

theorem C2_emission_order_witness:
  "sorted_wrt (<) (map (\<lambda>b. nullish (getBlockNumber b) 0) (delivered (responses (snd scenario_run))))
   \<and> (1::nat) < 2 \<and> 2 < length (emitted (fst scenario_run))
   \<and> (blockNumber (emitted (fst scenario_run) ! 1) < blockNumber (emitted (fst scenario_run) ! 2) \<or>
       (blockNumber (emitted (fst scenario_run) ! 1) = blockNumber (emitted (fst scenario_run) ! 2) \<and>
        (\<exists>b\<in>set (delivered (responses (snd scenario_run))).
           \<exists>p q. p < q \<and> q < length (object_or (getEventsList b) []) \<and>
             emitted (fst scenario_run) ! 1 =
               newChaincodeEvent (nullish (getBlockNumber b) 0) (object_or (getEventsList b) [] ! p) \<and>
             emitted (fst scenario_run) ! 2 =
               newChaincodeEvent (nullish (getBlockNumber b) 0) (object_or (getEventsList b) [] ! q))))"
proof -
  have r: "run [Next, Next, Next] (newChaincodeEvents (scenario_source\<lparr> delivered := [] \<rparr>)) =
      (fst scenario_run, snd scenario_run)"
    by (simp add: scenario_run_def scenario_source_def)
  have h2: "sorted_wrt (<) (map (\<lambda>b. nullish (getBlockNumber b) 0)
      (delivered (responses (snd scenario_run))))"
    by (simp add: scenario_run_value nullish_def one_record_def two_records_def)
  have h3: "(1::nat) < 2" by simp
  have h4: "2 < length (emitted (fst scenario_run))" by (simp add: scenario_run_value)
  show ?thesis by (intro conjI h2 h3 h4 C2_emission_order[OF r h2 h3 h4])
qed

text \<open>
  C3, as amended. When \<^verbatim>\<open>close()\<close> is called while records of a batch are still to be
  consumed, the later requests emit those records, in order, and nothing else: no record
  of a later batch is emitted. The source's \<^verbatim>\<open>close()\<close> has been called exactly once more.
  As the claim is stated it fails: in the scenario, the request that follows \<^verbatim>\<open>close()\<close>
  still yields the second record of block 6. In the witness a batch of block 7 is waiting
  in the source when \<^verbatim>\<open>close()\<close> is called, and none of its records is emitted.
\<close>

theorem C3_close_mid_batch:
  assumes "generator st = SuspendedYield bn es"
  shows "emitted (fst (run (replicate n Next) (close st))) = take n (map (newChaincodeEvent bn) es)
     \<and> closeCalls (responses (snd (run (replicate n Next) (close st)))) =
         closeCalls (responses st) + 1"
proof -
  have c: "closed (close st)" by (simp add: close_def)
  have i: "inflight (close st) = map (newChaincodeEvent bn) es"
    using assms by (simp add: close_def inflight_def)
  have a: "emitted (fst (run (replicate n Next) (close st))) =
      take n (map (newChaincodeEvent bn) es)"
    using emitted_run_closed[OF c, of n] by (simp only: i)
  have b: "closeCalls (responses (snd (run (replicate n Next) (close st)))) =
         closeCalls (responses st) + 1"
    using run_closeCalls[of "replicate n Next" "close st"]
    by (simp add: close_def upstream_close_def del: run.simps)
  show ?thesis by (intro conjI a b)
qed

theorem C3_close_mid_batch_witness:
  "generator mid_batch = SuspendedYield 6
     [\<lparr> getChaincodeId = Some ''cc1'', getEventName = Some ''ev3'', getTxId = Some ''t3'',
        getPayload_asU8 = Some [9] \<rparr>]
   \<and> emitted (fst (run (replicate 4 Next) (close mid_batch))) =
       [\<lparr> blockNumber = 6, transactionId = ''t3'', chaincodeId = ''cc1'',
          eventName = ''ev3'', payload = [9] \<rparr>]
   \<and> closeCalls (responses (snd (run (replicate 4 Next) (close mid_batch)))) = 1"
proof -
  have g: "generator mid_batch = SuspendedYield 6
     [\<lparr> getChaincodeId = Some ''cc1'', getEventName = Some ''ev3'', getTxId = Some ''t3'',
        getPayload_asU8 = Some [9] \<rparr>]"
    by (simp add: mid_batch_value)
  have c: "closeCalls (responses mid_batch) = 0" by (simp add: mid_batch_value)
  show ?thesis using C3_close_mid_batch[OF g, of 4] g c
    by (simp add: newChaincodeEvent_def nullish_def object_or_def del: run.simps replicate.simps)
qed

theorem C3_counterexample:
  "fst (run [Next, Next, Close, Next]
          (newChaincodeEvents (scenario_source\<lparr> onClose := endsOnClose \<rparr>))) =
     [Yielded \<lparr> blockNumber = 5, transactionId = ''t1'', chaincodeId = ''cc1'',
              eventName = ''ev1'', payload = [1, 2] \<rparr>,
      Yielded \<lparr> blockNumber = 6, transactionId = ''t2'', chaincodeId = ''cc1'',
              eventName = ''ev2'', payload = [] \<rparr>,
      Yielded \<lparr> blockNumber = 6, transactionId = ''t3'', chaincodeId = ''cc1'',
              eventName = ''ev3'', payload = [9] \<rparr>]
   \<and> emitted (fst (run [Next] (close mid_batch))) \<noteq> []"
  by (simp add: mid_batch_value)
     (simp add: scenario_defs)

text \<open>
  C4. Absent fields are decoded to defaults and are never an error: a batch without a
  block number yields events of block 0; a batch without an event list is passed over as
  a batch with no record, and alone it gives end-of-stream; a record without chaincode id,
  event name or transaction id yields the empty string for that field, and a record
  without payload yields the empty byte sequence.
\<close>

theorem C4_absent_fields_default:
  "fst (nextElement (newChaincodeEvents
      (rs\<lparr> pending := Batch \<lparr> getBlockNumber = None, getEventsList = Some (ev # evs) \<rparr> # rest \<rparr>)))
     = Yielded (newChaincodeEvent 0 ev)
   \<and> nextElement (newChaincodeEvents
      (rs\<lparr> pending := Batch \<lparr> getBlockNumber = bn, getEventsList = None \<rparr> # rest \<rparr>))
     = nextElement (newChaincodeEvents
      (rs\<lparr> pending := rest,
          delivered := delivered rs @ [\<lparr> getBlockNumber = bn, getEventsList = None \<rparr>] \<rparr>))
   \<and> fst (run (replicate n Next) (newChaincodeEvents
      (rs\<lparr> pending := [Batch \<lparr> getBlockNumber = bn, getEventsList = None \<rparr>] \<rparr>)))
     = replicate n Done
   \<and> chaincodeId (newChaincodeEvent k (event\<lparr> getChaincodeId := None \<rparr>)) = []
   \<and> eventName (newChaincodeEvent k (event\<lparr> getEventName := None \<rparr>)) = []
   \<and> transactionId (newChaincodeEvent k (event\<lparr> getTxId := None \<rparr>)) = []
   \<and> payload (newChaincodeEvent k (event\<lparr> getPayload_asU8 := None \<rparr>)) = []
   \<and> newChaincodeEvent k \<lparr> getChaincodeId = None, getEventName = None, getTxId = None,
                            getPayload_asU8 = None \<rparr>
     = \<lparr> blockNumber = k, transactionId = [], chaincodeId = [], eventName = [], payload = [] \<rparr>"
proof -
  let ?full = "\<lparr> getBlockNumber = None, getEventsList = Some (ev # evs) \<rparr>"
  let ?none = "\<lparr> getBlockNumber = bn, getEventsList = None \<rparr>"
  let ?st1 = "newChaincodeEvents (rs\<lparr> pending := Batch ?full # rest \<rparr>)"
  let ?st2 = "newChaincodeEvents (rs\<lparr> pending := Batch ?none # rest \<rparr>)"
  let ?st3 = "newChaincodeEvents (rs\<lparr> pending := [Batch ?none] \<rparr>)"
  have a: "fst (nextElement ?st1) = Yielded (newChaincodeEvent 0 ev)"
    using forAwait_yield[of ?st1 ?full rest ev evs]
    by (simp add: nextElement_def newChaincodeEvents_def nullish_def object_or_def)
  have b: "nextElement ?st2 = nextElement (newChaincodeEvents
      (rs\<lparr> pending := rest, delivered := delivered rs @ [?none] \<rparr>))"
    using forAwait_skip[of ?st2 ?none rest]
    by (simp add: nextElement_def newChaincodeEvents_def object_or_def)
  have o: "\<not> closed ?st3" and g: "generator ?st3 \<noteq> Completed"
    by (simp_all add: newChaincodeEvents_def)
  have c: "fst (run (replicate n Next) ?st3) = replicate n Done"
    using run_open[OF o g, of n] take_snoc_replicate[of n "[]" Done]
    by (simp add: newChaincodeEvents_def inflight_def decodeBatch_def object_or_def)
  show ?thesis
    by (intro conjI a b c) (simp_all add: newChaincodeEvent_def nullish_def object_or_def)
qed

text \<open>
  C5, as amended. When \<^verbatim>\<open>close()\<close> is called before any request, no event is ever emitted
  and the source's \<^verbatim>\<open>close()\<close> has been called exactly once; the first request reports
  end-of-stream unless the pull it makes from the closed source is rejected, in which
  case it raises that error, and every later request reports end-of-stream. As the claim
  is stated it fails on a source whose read is rejected once it has been closed.
\<close>

theorem C5_close_before_first_request:
  "fst (run (replicate (Suc n) Next) (close (newChaincodeEvents rs))) =
     (case onClose rs (pending rs) of Fail e # rest \<Rightarrow> Thrown e | _ \<Rightarrow> Done) # replicate n Done
   \<and> emitted (fst (run (replicate n Next) (close (newChaincodeEvents rs)))) = []
   \<and> closeCalls (responses (snd (run (replicate n Next) (close (newChaincodeEvents rs))))) =
       closeCalls rs + 1"
proof -
  let ?st = "close (newChaincodeEvents rs)"
  have c: "closed ?st" by (simp add: close_def)
  have i: "inflight ?st = []" by (simp add: close_def inflight_def newChaincodeEvents_def)
  have cl: "closing ?st =
      (case onClose rs (pending rs) of Fail e # rest \<Rightarrow> Thrown e | _ \<Rightarrow> Done)"
    by (simp add: closing_def close_def upstream_close_def newChaincodeEvents_def)
  have a: "fst (run (replicate (Suc n) Next) ?st) =
     (case onClose rs (pending rs) of Fail e # rest \<Rightarrow> Thrown e | _ \<Rightarrow> Done) # replicate n Done"
    using run_closed[OF c, of "Suc n"] by (simp add: i cl del: run.simps replicate.simps)
  have b: "emitted (fst (run (replicate n Next) ?st)) = []"
    using emitted_run_closed[OF c, of n] by (simp only: i take_Nil)
  have d: "closeCalls (responses (snd (run (replicate n Next) ?st))) = closeCalls rs + 1"
    using run_closeCalls[of "replicate n Next" ?st]
    by (simp add: close_def upstream_close_def newChaincodeEvents_def del: run.simps)
  show ?thesis by (intro conjI a b d)
qed

theorem C5_counterexample:
  "fst (run [Close, Next]
          (newChaincodeEvents (scenario_source\<lparr> onClose := cancelsOnClose \<rparr>))) =
     [Thrown ''CANCELLED'']
   \<and> fst (run [Close, Next]
          (newChaincodeEvents (scenario_source\<lparr> onClose := cancelsOnClose \<rparr>))) \<noteq> [Done]"
  by (simp add: scenario_defs)

text \<open>
  C6. When the source ends by itself and \<^verbatim>\<open>close()\<close> is never called, the output ends with
  end-of-stream after the last event, and neither \<^verbatim>\<open>close()\<close> nor the iterator's
  \<^verbatim>\<open>return()\<close> is called on the source. No request ever calls \<^verbatim>\<open>close()\<close> on the source:
  over any sequence of calls, the source's \<^verbatim>\<open>close()\<close> has been called once for each call
  of the adapter's \<^verbatim>\<open>close()\<close>.
\<close>

theorem C6_no_implicit_close:
  "fst (run (replicate (Suc (length (flatten bs))) Next)
          (newChaincodeEvents (rs\<lparr> pending := map Batch bs \<rparr>))) =
     map Yielded (flatten bs) @ [Done]
   \<and> closeCalls (responses (snd (run (replicate n Next)
          (newChaincodeEvents (rs\<lparr> pending := map Batch bs \<rparr>))))) = closeCalls rs
   \<and> returnCalls (responses (snd (run (replicate n Next)
          (newChaincodeEvents (rs\<lparr> pending := map Batch bs \<rparr>))))) = returnCalls rs
   \<and> closeCalls (responses (snd (nextElement st))) = closeCalls (responses st)
   \<and> closeCalls (responses (snd (run cs st))) = closeCalls (responses st) + count_list cs Close"
proof -
  let ?st = "newChaincodeEvents (rs\<lparr> pending := map Batch bs \<rparr>)"
  have o: "\<not> closed ?st" and g: "generator ?st \<noteq> Completed"
    and i: "inflight ?st = []" and p: "pending (responses ?st) = map Batch bs"
    by (simp_all add: newChaincodeEvents_def inflight_def)
  have a: "fst (run (replicate (Suc (length (flatten bs))) Next) ?st) =
      map Yielded (flatten bs) @ [Done]"
    using run_open[OF o g, of "Suc (length (flatten bs))"]
    by (simp add: i p upcoming_batches ending_batches del: run.simps replicate.simps)
  have b: "closeCalls (responses (snd (run (replicate n Next) ?st))) = closeCalls rs"
    using run_closeCalls[of "replicate n Next" ?st] by (simp add: newChaincodeEvents_def)
  have c: "returnCalls (responses (snd (run (replicate n Next) ?st))) = returnCalls rs"
    using run_open_returnCalls[OF o, of n] by (simp add: newChaincodeEvents_def)
  have d: "closeCalls (responses (snd (nextElement st))) = closeCalls (responses st)"
    using nextElement_frame[of st] by simp
  show ?thesis by (intro conjI a b c d run_closeCalls)
qed

text \<open>
  C7, as amended. Once \<^verbatim>\<open>close()\<close> has been called, a request yields the next record of
  the batch in flight if one is left; otherwise it ends the stream, and it raises an error
  only when the pull it makes from the source is rejected, which it propagates; after
  that every request reports end-of-stream. The flag stays set. As the claim is stated it
  fails: in the scenario below, of the two requests made after \<^verbatim>\<open>close()\<close> the first yields
  an event and the second raises the error of the source.
\<close>

theorem C7_requests_after_close:
  assumes "closed st"
  shows "fst (nextElement st) =
       (case generator st of
          SuspendedYield bn (ev # evs) \<Rightarrow> Yielded (newChaincodeEvent bn ev)
        | Completed \<Rightarrow> Done
        | _ \<Rightarrow> (case pending (responses st) of Fail e # rest \<Rightarrow> Thrown e | _ \<Rightarrow> Done))
     \<and> closed (snd (nextElement st))
     \<and> fst (run (replicate n Next) st) =
         take n (map Yielded (inflight st) @ [closing st]) @
         replicate (n - Suc (length (inflight st))) Done"
proof -
  have a: "fst (nextElement st) =
       (case generator st of
          SuspendedYield bn (ev # evs) \<Rightarrow> Yielded (newChaincodeEvent bn ev)
        | Completed \<Rightarrow> Done
        | _ \<Rightarrow> (case pending (responses st) of Fail e # rest \<Rightarrow> Thrown e | _ \<Rightarrow> Done))"
    using forAwait_when_closed[OF assms]
    by (simp add: nextElement_def split: generator_state.split list.split)
  have b: "closed (snd (nextElement st))" using nextElement_frame[of st] assms by simp
  show ?thesis by (intro conjI a b run_closed[OF assms])
qed

theorem C7_requests_after_close_witness:
  "closed (close mid_batch)
   \<and> fst (run (replicate 3 Next) (close mid_batch)) =
       [Yielded \<lparr> blockNumber = 6, transactionId = ''t3'', chaincodeId = ''cc1'',
                  eventName = ''ev3'', payload = [9] \<rparr>, Done, Done]"
proof -
  have c: "closed (close mid_batch)" by (simp add: close_def)
  have i: "inflight (close mid_batch) =
      [\<lparr> blockNumber = 6, transactionId = ''t3'', chaincodeId = ''cc1'',
          eventName = ''ev3'', payload = [9] \<rparr>]"
    by (simp add: mid_batch_value close_def inflight_def newChaincodeEvent_def nullish_def
        object_or_def)
  have cl: "closing (close mid_batch) = Done"
    by (simp add: mid_batch_value close_def closing_def upstream_close_def ignoresClose_def)
  show ?thesis using C7_requests_after_close[OF c, of 3] c
    by (simp add: i cl del: run.simps replicate.simps) (simp add: numeral_3_eq_3)
qed

theorem C7_counterexample:
  "fst (run [Next, Close, Next, Next]
          (newChaincodeEvents
             (scenario_source\<lparr> pending := [Batch two_records, Fail ''UNAVAILABLE''] \<rparr>))) =
     [Yielded \<lparr> blockNumber = 6, transactionId = ''t2'', chaincodeId = ''cc1'',
              eventName = ''ev2'', payload = [] \<rparr>,
      Yielded \<lparr> blockNumber = 6, transactionId = ''t3'', chaincodeId = ''cc1'',
              eventName = ''ev3'', payload = [9] \<rparr>,
      Thrown ''UNAVAILABLE'']"
  by (simp add: scenario_defs)

text \<open>
  C8. When the pull a request makes from the source is rejected, the request raises that
  same error, whatever the flag; the rejected pull is the last one (the generator has
  finished, so there is no retry and every later request reports end-of-stream without
  touching the source). On a script of batches followed by a rejection, a consumer that
  never closes receives the events of the batches and then the error.
\<close>

theorem C8_upstream_error_verbatim:
  assumes "generator st = SuspendedStart \<or> generator st = SuspendedYield bn []"
    and "pending (responses st) = Fail e # rest"
  shows "nextElement st =
       (Thrown e, st\<lparr> generator := Completed,
                       responses := (responses st)\<lparr> pending := rest \<rparr> \<rparr>)
     \<and> run (replicate n Next) (snd (nextElement st)) = (replicate n Done, snd (nextElement st))
     \<and> fst (run (replicate n Next)
              (newChaincodeEvents (rs\<lparr> pending := map Batch bs @ Fail e # rest \<rparr>))) =
         take n (map Yielded (flatten bs) @ [Thrown e]) @
         replicate (n - Suc (length (flatten bs))) Done"
proof -
  have ne: "nextElement st = forAwait st" using assms(1) by (auto simp: nextElement_def)
  have a: "nextElement st =
       (Thrown e, st\<lparr> generator := Completed,
                       responses := (responses st)\<lparr> pending := rest \<rparr> \<rparr>)"
    using forAwait_fail[OF assms(2)] ne by simp
  have b: "run (replicate n Next) (snd (nextElement st)) =
      (replicate n Done, snd (nextElement st))"
    by (rule run_completed) (simp add: a)
  let ?st = "newChaincodeEvents (rs\<lparr> pending := map Batch bs @ Fail e # rest \<rparr>)"
  have o: "\<not> closed ?st" and g: "generator ?st \<noteq> Completed"
    and i: "inflight ?st = []" and p: "pending (responses ?st) = map Batch bs @ Fail e # rest"
    by (simp_all add: newChaincodeEvents_def inflight_def)
  have c: "fst (run (replicate n Next) ?st) =
      take n (map Yielded (flatten bs) @ [Thrown e]) @
      replicate (n - Suc (length (flatten bs))) Done"
    using run_open[OF o g, of n] by (simp add: i p upcoming_batches_fail ending_batches_fail)
  show ?thesis by (intro conjI a b c)
qed

theorem C8_upstream_error_verbatim_witness:
  "generator (newChaincodeEvents (scenario_source\<lparr> pending := [Fail ''UNAVAILABLE''] \<rparr>)) =
     SuspendedStart
   \<and> pending (responses (newChaincodeEvents (scenario_source\<lparr> pending := [Fail ''UNAVAILABLE''] \<rparr>))) =
     [Fail ''UNAVAILABLE'']
   \<and> fst (nextElement (newChaincodeEvents (scenario_source\<lparr> pending := [Fail ''UNAVAILABLE''] \<rparr>))) =
     Thrown ''UNAVAILABLE''
   \<and> pending (responses (snd (nextElement
       (newChaincodeEvents (scenario_source\<lparr> pending := [Fail ''UNAVAILABLE''] \<rparr>))))) = []"
proof -
  let ?st = "newChaincodeEvents (scenario_source\<lparr> pending := [Fail ''UNAVAILABLE''] \<rparr>)"
  have g: "generator ?st = SuspendedStart \<or> generator ?st = SuspendedYield 0 []"
    by (simp add: newChaincodeEvents_def)
  have p: "pending (responses ?st) = Fail ''UNAVAILABLE'' # []"
    by (simp add: newChaincodeEvents_def)
  show ?thesis using C8_upstream_error_verbatim[OF g p, where n = 0 and rs = scenario_source and bs = "[]"]
    by (simp add: newChaincodeEvents_def)
qed

text \<open>
  C9. \<^verbatim>\<open>close()\<close> may be called any number of times: it sets the flag, a second call leaves
  the flag and the generator as the first left them, every call calls \<^verbatim>\<open>close()\<close> on the
  source once more, and no later sequence of calls resets the flag.
\<close>

theorem C9_close_repeatable:
  "closed (close st)
   \<and> closed (close (close st)) = closed (close st)
   \<and> generator (close (close st)) = generator (close st)
   \<and> generator (close st) = generator st
   \<and> closeCalls (responses (close st)) = closeCalls (responses st) + 1
   \<and> closeCalls (responses (close (close st))) = closeCalls (responses (close st)) + 1
   \<and> closed (snd (run cs (close st)))"
proof -
  have "closed (close st)" by (simp add: close_def)
  then have "closed (snd (run cs (close st)))" by (rule run_stays_closed)
  then show ?thesis by (simp add: close_def upstream_close_def)
qed

text \<open>
  C10. The flag is tested only when a batch has been pulled. When \<^verbatim>\<open>close()\<close> is called
  while records of a batch are still to be consumed, the next requests yield every one of
  them in order; the request after them yields no event (it reports end-of-stream, or
  raises the error with which the closed source rejects the pull), and so do all the
  later ones.
\<close>

theorem C10_guard_at_batch_boundary:
  assumes "generator st = SuspendedYield bn es"
  shows "fst (run (replicate (length es) Next) (close st)) =
       map (\<lambda>ev. Yielded (newChaincodeEvent bn ev)) es
     \<and> fst (run (replicate (length es + Suc k) Next) (close st)) =
       map (\<lambda>ev. Yielded (newChaincodeEvent bn ev)) es @ closing (close st) # replicate k Done
     \<and> emitted [closing (close st)] = []
     \<and> closing (close st) =
       (case onClose (responses st) (pending (responses st)) of
          Fail e # rest \<Rightarrow> Thrown e | _ \<Rightarrow> Done)"
proof -
  have c: "closed (close st)" by (simp add: close_def)
  have i: "inflight (close st) = map (newChaincodeEvent bn) es"
    using assms by (simp add: close_def inflight_def)
  have a: "fst (run (replicate (length es) Next) (close st)) =
       map (\<lambda>ev. Yielded (newChaincodeEvent bn ev)) es"
    using run_closed[OF c, of "length es"] by (simp add: i comp_def)
  have b: "fst (run (replicate (length es + Suc k) Next) (close st)) =
       map (\<lambda>ev. Yielded (newChaincodeEvent bn ev)) es @ closing (close st) # replicate k Done"
    using run_closed[OF c, of "length es + Suc k"]
    by (simp add: i comp_def del: run.simps replicate.simps)
  have d: "closing (close st) =
       (case onClose (responses st) (pending (responses st)) of
          Fail e # rest \<Rightarrow> Thrown e | _ \<Rightarrow> Done)"
    using assms by (simp add: closing_def close_def upstream_close_def)
  show ?thesis by (intro conjI a b d emitted_closing)
qed

theorem C10_guard_at_batch_boundary_witness:
  "generator mid_batch = SuspendedYield 6
     [\<lparr> getChaincodeId = Some ''cc1'', getEventName = Some ''ev3'', getTxId = Some ''t3'',
        getPayload_asU8 = Some [9] \<rparr>]
   \<and> fst (run (replicate 1 Next) (close mid_batch)) =
       [Yielded \<lparr> blockNumber = 6, transactionId = ''t3'', chaincodeId = ''cc1'',
                  eventName = ''ev3'', payload = [9] \<rparr>]
   \<and> fst (run (replicate 2 Next) (close mid_batch)) =
       [Yielded \<lparr> blockNumber = 6, transactionId = ''t3'', chaincodeId = ''cc1'',
                  eventName = ''ev3'', payload = [9] \<rparr>, Done]"
proof -
  have g: "generator mid_batch = SuspendedYield 6
     [\<lparr> getChaincodeId = Some ''cc1'', getEventName = Some ''ev3'', getTxId = Some ''t3'',
        getPayload_asU8 = Some [9] \<rparr>]"
    by (simp add: mid_batch_value)
  have o: "onClose (responses mid_batch) (pending (responses mid_batch)) = [Batch third_batch]"
    by (simp add: mid_batch_value ignoresClose_def)
  show ?thesis using C10_guard_at_batch_boundary[OF g, of 0] g o
    by (simp add: newChaincodeEvent_def nullish_def object_or_def numeral_2_eq_2
        del: run.simps)
qed

end
